theory Spec2Isabelle
  imports Main "HOL-Library.Word"
begin

unbundle bit_operations_syntax

section \<open>The padthai codec: data model\<close>

text \<open>
  The package \<open>padthai\<close> encodes bytes as text: two bytes become three Thai characters
  (base 48), a trailing odd byte becomes two Buginese characters (one per nibble).

  Go's \<open>rune\<close> is \<open>int32\<close> and is compared as a signed number, \<open>byte\<close> is \<open>uint8\<close>,
  \<open>uint\<close> is taken at 64 bits (no value computed here exceeds \<open>110591\<close>, so the
  32-bit \<open>uint\<close> behaves the same). Lengths and loop indices are \<open>nat\<close>.

  A Go string is modelled as the list of runes that \<open>for _, r := range s\<close> yields, and
  \<open>strings.Builder.WriteRune\<close> as appending one rune to that list. Every rune that
  \<open>Encode\<close> writes lies between U+0E01 and U+1A0F (lemma \<open>Encode_runes_valid\<close> below),
  a valid code point, which \<open>range\<close> reads back as written. \<open>Builder.Grow\<close> and the
  capacities given to \<open>make\<close> only reserve memory and are left out.
\<close>

type_synonym rune = "32 word"
type_synonym byte = "8 word"
type_synonym uint = "64 word"

definition thaiStart :: rune where "thaiStart = 0x0E01"
definition thaiEnd :: rune where "thaiEnd = 0x0E2F"
definition thaiBaht :: rune where "thaiBaht = 0x0E3F"
definition bugineseStart :: rune where "bugineseStart = 0x1A00"
definition bugineseEnd :: rune where "bugineseEnd = 0x1A0F"

definition Base :: nat where "Base = 48"
definition PadBase :: nat where "PadBase = 16"

subsection \<open>The package initialiser\<close>

text \<open>
  \<open>init\<close> fills the two arrays and the reverse index. The arrays start zeroed
  (\<open>replicate\<close>); each loop of \<open>init\<close> is a recursive function that returns what the
  loop leaves behind. The first loop also returns its counter \<open>idx\<close>, which \<open>init\<close>
  uses for the last store. A store \<open>arr[idx := r]\<close> out of range would be a panic in Go
  and is no store here; the loop ends with \<open>idx = 47\<close> (lemma \<open>init_thai_loop_idx\<close>),
  so every store of \<open>init\<close> is in range.
\<close>

function init_thai_loop :: "rune \<Rightarrow> nat \<Rightarrow> rune list \<Rightarrow> nat \<times> rune list" where
  "init_thai_loop r idx arr =
     (if r \<le>s thaiEnd then init_thai_loop (r + 1) (idx + 1) (arr[idx := r])
      else (idx, arr))"
  by pat_completeness auto
termination
proof (relation "measure (\<lambda>(r, idx, arr). nat (0x0E30 - sint r))")
  fix r :: rune and idx :: nat and arr :: "rune list"
  assume "r \<le>s thaiEnd"
  then have le: "sint r \<le> 0xE2F"
    by (simp add: thaiEnd_def word_sle_eq)
  moreover have "- (2 ^ 31) \<le> sint r"
    using sint_ge [of r] by simp
  ultimately have "sint (r + 1) = sint r + 1"
    by (simp add: sint_word_add signed_take_bit_int_eq_self_iff)
  with le show "((r + 1, idx + 1, arr[idx := r]), (r, idx, arr))
          \<in> measure (\<lambda>(r, idx, arr). nat (0x0E30 - sint r))"
    by simp
qed simp

function init_buginese_loop :: "nat \<Rightarrow> rune list \<Rightarrow> rune list" where
  "init_buginese_loop i arr =
     (if i < PadBase
      then init_buginese_loop (i + 1) (arr[i := bugineseStart + word_of_nat i])
      else arr)"
  by pat_completeness auto
termination
  by (relation "measure (\<lambda>(i, arr). PadBase - i)") auto

text \<open>
  The package variables after \<open>init\<close>. \<open>thaiIndex\<close> is the map built by
  \<open>for i, r := range ThaiAlphabet { thaiIndex[r] = i }\<close>: a later store for the same
  rune would replace an earlier one.
\<close>

definition ThaiAlphabet :: "rune list" where
  "ThaiAlphabet =
     (let (idx, arr) = init_thai_loop thaiStart 0 (replicate Base 0)
      in arr[idx := thaiBaht])"

definition thaiIndex :: "rune \<rightharpoonup> nat" where
  "thaiIndex = fold (\<lambda>(i, r) m. m(r \<mapsto> i)) (enumerate 0 ThaiAlphabet) Map.empty"

definition BugineseAlphabet :: "rune list" where
  "BugineseAlphabet = init_buginese_loop 0 (replicate PadBase 0)"

definition isThai :: "rune \<Rightarrow> bool" where
  "isThai r = (case thaiIndex r of Some _ \<Rightarrow> True | None \<Rightarrow> False)"

definition isBuginese :: "rune \<Rightarrow> bool" where
  "isBuginese r = (bugineseStart \<le>s r \<and> r \<le>s bugineseEnd)"

section \<open>Encode\<close>

text \<open>
  Indexing a Go array out of range panics; \<open>at\<close> is the checked read, and \<open>None\<close>
  as a result of \<open>Encode\<close> stands for that panic.
\<close>

definition at :: "rune list \<Rightarrow> 'a::len word \<Rightarrow> rune option" where
  "at arr d = (if unat d < length arr then Some (arr ! unat d) else None)"

text \<open>
  The loop \<open>for i+1 < len(data)\<close> of \<open>Encode\<close>, with the builder \<open>sb\<close> as the
  accumulator; it returns the index it stopped at together with the builder.
\<close>

function Encode_pairs :: "byte list \<Rightarrow> nat \<Rightarrow> rune list \<Rightarrow> (nat \<times> rune list) option" where
  "Encode_pairs data i sb =
     (if i + 1 < length data then
        (let val = push_bit 8 (ucast (data ! i) :: uint) OR ucast (data ! (i + 1));
             d2 = val mod word_of_nat Base;
             val = val div word_of_nat Base;
             d1 = val mod word_of_nat Base;
             val = val div word_of_nat Base;
             d0 = val
         in case at ThaiAlphabet d0 of None \<Rightarrow> None
            | Some c0 \<Rightarrow>
                (case at ThaiAlphabet d1 of None \<Rightarrow> None
                 | Some c1 \<Rightarrow>
                     (case at ThaiAlphabet d2 of None \<Rightarrow> None
                      | Some c2 \<Rightarrow> Encode_pairs data (i + 2) (sb @ [c0, c1, c2]))))
      else Some (i, sb))"
  by pat_completeness auto
termination
  by (relation "measure (\<lambda>(data, i, sb). length data - i)") auto

definition Encode :: "byte list \<Rightarrow> rune list option" where
  "Encode data =
     (if length data = 0 then Some []
      else case Encode_pairs data 0 [] of None \<Rightarrow> None
           | Some (i, sb) \<Rightarrow>
               (if i < length data then
                  (let b = data ! i;
                       hi = drop_bit 4 b AND 0x0f;
                       lo = b AND 0x0f
                   in case at BugineseAlphabet hi of None \<Rightarrow> None
                      | Some c0 \<Rightarrow>
                          (case at BugineseAlphabet lo of None \<Rightarrow> None
                           | Some c1 \<Rightarrow> Some (sb @ [c0, c1])))
                else Some sb))"

section \<open>Decode\<close>

text \<open>
  \<open>Decode\<close> returns \<open>nil\<close> bytes with every error, so its result is a sum. The errors
  are built with \<open>fmt.Errorf\<close>; each format string is one constructor, carrying the
  values the message prints.
\<close>

datatype decode_error =
    InvalidLength nat
  | InvalidCharacter rune nat
  | ValueOutOfRange uint nat
  | InvalidPadding

definition isSpace :: "rune \<Rightarrow> bool" where
  "isSpace r = (r = 0x20 \<or> r = 0x0A \<or> r = 0x0D \<or> r = 0x09)"

definition collect_runes :: "rune list \<Rightarrow> rune list" where
  "collect_runes s = fold (\<lambda>r runes. if isSpace r then runes else runes @ [r]) s []"

function Decode_triplets :: "rune list \<Rightarrow> nat \<Rightarrow> byte list \<Rightarrow> decode_error + byte list" where
  "Decode_triplets thaiRunes i out =
     (if i + 2 < length thaiRunes then
        (case thaiIndex (thaiRunes ! i) of
           None \<Rightarrow> Inl (InvalidCharacter (thaiRunes ! i) i)
         | Some d0 \<Rightarrow>
            (case thaiIndex (thaiRunes ! (i + 1)) of
               None \<Rightarrow> Inl (InvalidCharacter (thaiRunes ! (i + 1)) (i + 1))
             | Some d1 \<Rightarrow>
                (case thaiIndex (thaiRunes ! (i + 2)) of
                   None \<Rightarrow> Inl (InvalidCharacter (thaiRunes ! (i + 2)) (i + 2))
                 | Some d2 \<Rightarrow>
                    (let val = word_of_nat d0 * word_of_nat Base * word_of_nat Base
                                 + word_of_nat d1 * word_of_nat Base + word_of_nat d2 :: uint
                     in if val > 0xFFFF then Inl (ValueOutOfRange val i)
                        else Decode_triplets thaiRunes (i + 3)
                               (out @ [ucast (drop_bit 8 val), ucast (val AND 0xFF)])))))
      else Inr out)"
  by pat_completeness auto
termination
  by (relation "measure (\<lambda>(thaiRunes, i, out). length thaiRunes - i)") auto

definition trailingBuginese :: "rune list \<Rightarrow> nat" where
  "trailingBuginese runes =
     (if length runes \<ge> 2 \<and> isBuginese (runes ! (length runes - 1))
           \<and> isBuginese (runes ! (length runes - 2))
      then 2 else 0)"

definition Decode_padding :: "rune list \<Rightarrow> byte list \<Rightarrow> decode_error + byte list" where
  "Decode_padding bugRunes out =
     (let hi = ucast (bugRunes ! 0 - bugineseStart) :: byte;
          lo = ucast (bugRunes ! 1 - bugineseStart) :: byte
      in if hi > 0x0f \<or> lo > 0x0f then Inl InvalidPadding
         else Inr (out @ [push_bit 4 hi OR lo]))"

definition thaiRunes_of :: "rune list \<Rightarrow> rune list" where
  "thaiRunes_of runes = take (length runes - trailingBuginese runes) runes"

definition bugRunes_of :: "rune list \<Rightarrow> rune list" where
  "bugRunes_of runes = drop (length runes - trailingBuginese runes) runes"

definition Decode :: "rune list \<Rightarrow> decode_error + byte list" where
  "Decode s =
     (let runes = collect_runes s in
      if length runes = 0 then Inr []
      else
        (let thaiRunes = thaiRunes_of runes;
             bugRunes = bugRunes_of runes
         in if length thaiRunes mod 3 \<noteq> 0 then Inl (InvalidLength (length thaiRunes))
            else case Decode_triplets thaiRunes 0 [] of
                   Inl e \<Rightarrow> Inl e
                 | Inr out \<Rightarrow>
                     (if trailingBuginese runes = 2 then Decode_padding bugRunes out
                      else Inr out)))"

section \<open>Reference functions\<close>

text \<open>
  What the two loops compute, written by recursion on the data instead of on an index.
  They are used to state and prove facts about the loops; the loops themselves are the
  functions above.
\<close>

definition triple :: "byte \<Rightarrow> byte \<Rightarrow> rune list" where
  "triple b0 b1 =
     (let v = unat b0 * 256 + unat b1
      in [ThaiAlphabet ! (v div 48 div 48), ThaiAlphabet ! (v div 48 mod 48),
          ThaiAlphabet ! (v mod 48)])"

definition pad_runes :: "byte \<Rightarrow> rune list" where
  "pad_runes b = [BugineseAlphabet ! (unat b div 16), BugineseAlphabet ! (unat b mod 16)]"

fun enc_pairs :: "byte list \<Rightarrow> rune list" where
  "enc_pairs (b0 # b1 # rest) = triple b0 b1 @ enc_pairs rest"
| "enc_pairs rest = []"

fun paired :: "byte list \<Rightarrow> byte list" where
  "paired (b0 # b1 # rest) = b0 # b1 # paired rest"
| "paired rest = []"

text \<open>
  \<open>ws_inserted t t'\<close>: the text \<open>t'\<close> is \<open>t\<close> with whitespace runes inserted at
  any positions.
\<close>

fun ws_inserted :: "rune list \<Rightarrow> rune list \<Rightarrow> bool" where
  "ws_inserted [] t' = list_all isSpace t'"
| "ws_inserted (r # t) [] = False"
| "ws_inserted (r # t) (r' # t') =
     ((r' = r \<and> ws_inserted t t') \<or> (isSpace r' \<and> ws_inserted (r # t) t'))"

declare init_thai_loop.simps [simp del]
declare init_buginese_loop.simps [simp del]
declare Encode_pairs.simps [simp del]
declare Decode_triplets.simps [simp del]

section \<open>Facts about the tables\<close>

lemma ThaiAlphabet_eq:
  "ThaiAlphabet = map (\<lambda>n. thaiStart + word_of_nat n) [0..<47] @ [thaiBaht]"
  by code_simp

lemma BugineseAlphabet_eq:
  "BugineseAlphabet = map (\<lambda>n. bugineseStart + word_of_nat n) [0..<16]"
  by code_simp

lemma init_thai_loop_idx: "fst (init_thai_loop thaiStart 0 (replicate Base 0)) = 47"
  by code_simp

lemma length_ThaiAlphabet: "length ThaiAlphabet = 48"
  by (simp add: ThaiAlphabet_eq)

lemma length_BugineseAlphabet: "length BugineseAlphabet = 16"
  by (simp add: BugineseAlphabet_eq)

lemma distinct_ThaiAlphabet: "distinct ThaiAlphabet"
  by code_simp

lemma distinct_BugineseAlphabet: "distinct BugineseAlphabet"
  by code_simp

lemma alphabets_disjoint: "\<forall>r \<in> set ThaiAlphabet. r \<notin> set BugineseAlphabet"
  by code_simp

lemma fold_index_notin:
  "r \<notin> set xs \<Longrightarrow> fold (\<lambda>(i, r) m. m(r \<mapsto> i)) (enumerate k xs) m r = m r"
  by (induction xs arbitrary: k m) auto

lemma fold_index_nth:
  "distinct xs \<Longrightarrow> i < length xs \<Longrightarrow>
     fold (\<lambda>(i, r) m. m(r \<mapsto> i)) (enumerate k xs) m (xs ! i) = Some (k + i)"
proof (induction xs arbitrary: k m i)
  case Nil
  then show ?case by simp
next
  case (Cons x xs)
  show ?case
  proof (cases i)
    case 0
    have "fold (\<lambda>(i, r) m. m(r \<mapsto> i)) (enumerate (Suc k) xs) (m(x \<mapsto> k)) x
            = (m(x \<mapsto> k)) x"
      using Cons.prems by (intro fold_index_notin) simp
    also have "\<dots> = Some k"
      by simp
    finally show ?thesis
      using 0 by (simp del: fun_upd_apply)
  next
    case (Suc j)
    with Cons.prems Cons.IH [of j "Suc k" "m(x \<mapsto> k)"] show ?thesis
      by (simp del: fun_upd_apply)
  qed
qed

lemma thaiIndex_nth: "d < 48 \<Longrightarrow> thaiIndex (ThaiAlphabet ! d) = Some d"
  using fold_index_nth [OF distinct_ThaiAlphabet, of d 0 Map.empty]
  by (simp add: thaiIndex_def length_ThaiAlphabet)

lemma thaiIndex_None: "r \<notin> set ThaiAlphabet \<Longrightarrow> thaiIndex r = None"
  by (simp add: thaiIndex_def fold_index_notin)

lemma thaiIndex_Some: "thaiIndex r = Some d \<Longrightarrow> d < 48 \<and> ThaiAlphabet ! d = r"
proof -
  assume a: "thaiIndex r = Some d"
  then have "r \<in> set ThaiAlphabet"
    using thaiIndex_None by fastforce
  then obtain e where e: "e < 48" "ThaiAlphabet ! e = r"
    by (auto simp: in_set_conv_nth length_ThaiAlphabet)
  with thaiIndex_nth [of e] a show ?thesis by simp
qed

lemma isThai_iff: "isThai r \<longleftrightarrow> r \<in> set ThaiAlphabet"
proof
  assume "isThai r"
  then obtain d where "thaiIndex r = Some d"
    by (auto simp: isThai_def split: option.splits)
  then show "r \<in> set ThaiAlphabet"
    using thaiIndex_None [of r] by fastforce
next
  assume "r \<in> set ThaiAlphabet"
  then obtain e where "e < 48" "ThaiAlphabet ! e = r"
    by (auto simp: in_set_conv_nth length_ThaiAlphabet)
  with thaiIndex_nth [of e] show "isThai r"
    by (simp add: isThai_def)
qed

lemma isBuginese_offset:
  assumes "isBuginese r"
  shows "\<exists>n<16. r = bugineseStart + word_of_nat n"
proof -
  from assms have lo: "0x1A00 \<le> sint r" and hi: "sint r \<le> 0x1A0F"
    by (simp_all add: isBuginese_def bugineseStart_def bugineseEnd_def word_sle_eq)
  define n where "n = nat (sint r - 0x1A00)"
  have n: "n < 16" using lo hi by (simp add: n_def)
  have "sint r = 0x1A00 + int n" using lo by (simp add: n_def)
  then have "(word_of_int (sint r) :: rune) = word_of_int (0x1A00 + int n)" by simp
  then have "r = 0x1A00 + word_of_nat n" by simp
  with n show ?thesis by (auto simp: bugineseStart_def)
qed

lemma isBuginese_iff: "isBuginese r \<longleftrightarrow> r \<in> set BugineseAlphabet"
proof
  assume "isBuginese r"
  then show "r \<in> set BugineseAlphabet"
    using isBuginese_offset [of r] by (auto simp: BugineseAlphabet_eq)
next
  assume "r \<in> set BugineseAlphabet"
  then have "list_ex (\<lambda>x. x = r) BugineseAlphabet" by (simp add: list_ex_iff)
  moreover have "list_all isBuginese BugineseAlphabet" by code_simp
  ultimately show "isBuginese r" by (auto simp: list_all_iff list_ex_iff)
qed

section \<open>Facts about the machine arithmetic\<close>

lemma pair_or_add:
  fixes b0 b1 :: byte
  shows "push_bit 8 (ucast b0 :: uint) OR ucast b1 = push_bit 8 (ucast b0) + ucast b1"
  by (rule disjunctive_add [symmetric]) (auto simp: bit_simps dest: bit_imp_le_length)

lemma unat_byte_lt: "unat (b :: byte) < 256"
  using unsigned_less [of b, where 'a = nat] by simp

lemma unat_of_nat_small: "n < 2 ^ 64 \<Longrightarrow> unat (word_of_nat n :: uint) = n"
  by (simp add: unat_of_nat)

lemma unat_pair:
  fixes b0 b1 :: byte
  shows "unat (push_bit 8 (ucast b0 :: uint) OR ucast b1) = unat b0 * 256 + unat b1"
proof -
  have "push_bit 8 (ucast b0 :: uint) OR ucast b1 = word_of_nat (unat b0 * 256 + unat b1)"
    unfolding pair_or_add by (simp add: push_bit_eq_mult)
  moreover have "unat b0 * 256 + unat b1 < 2 ^ 64"
    using unat_byte_lt [of b0] unat_byte_lt [of b1] by simp
  ultimately show ?thesis
    by (simp only: unat_of_nat_small)
qed

lemma unat_digits:
  fixes d0 d1 d2 :: nat
  assumes "d0 < 48" "d1 < 48" "d2 < 48"
  shows "unat (word_of_nat d0 * word_of_nat 48 * word_of_nat 48
                 + word_of_nat d1 * word_of_nat 48 + word_of_nat d2 :: uint)
         = d0 * 48 * 48 + d1 * 48 + d2"
proof -
  have eq: "word_of_nat d0 * word_of_nat 48 * word_of_nat 48
                 + word_of_nat d1 * word_of_nat 48 + word_of_nat d2
            = (word_of_nat (d0 * 48 * 48 + d1 * 48 + d2) :: uint)"
    by simp
  show ?thesis
    unfolding eq by (rule unat_of_nat_small) (use assms in simp)
qed

lemma unat_hi_byte:
  fixes val :: uint
  shows "unat (ucast (drop_bit 8 val) :: byte) = unat val div 256 mod 256"
  by (simp add: unsigned_ucast_eq unsigned_drop_bit_eq take_bit_eq_mod drop_bit_eq_div unat_div)

lemma mask8: "(0xFF :: 'a::len word) = mask 8"
  by (simp add: mask_eq_exp_minus_1)

lemma mask4: "(0x0F :: 'a::len word) = mask 4"
  by (simp add: mask_eq_exp_minus_1)

lemma unat_lo_byte:
  fixes val :: uint
  shows "unat (ucast (val AND 0xFF) :: byte) = unat val mod 256"
proof -
  have "(ucast (val AND 0xFF) :: byte) = ucast val"
    unfolding mask8 by (rule bit_word_eqI) (auto simp: bit_simps)
  then show ?thesis
    by (simp add: unsigned_ucast_eq take_bit_eq_mod)
qed

lemma nib_hi: "unat (drop_bit 4 (b::byte) AND 0x0f) = unat b div 16"
proof -
  have "drop_bit 4 b AND 0x0f = drop_bit 4 b"
    unfolding mask4 by (rule bit_word_eqI) (auto simp: bit_simps dest: bit_imp_le_length)
  then show ?thesis
    by (simp add: unat_drop_bit_eq drop_bit_eq_div unat_div)
qed

lemma nib_lo: "unat ((b::byte) AND 0x0f) = unat b mod 16"
  unfolding mask4 by (simp add: take_bit_eq_mask [symmetric] unsigned_take_bit_eq take_bit_eq_mod unat_mod)

lemma nib_join: 
  fixes n m :: nat 
  assumes "n < 16" "m < 16"
  shows "unat (push_bit 4 (word_of_nat n :: byte) OR word_of_nat m) = n * 16 + m"
proof -
  have "take_bit 4 m = m" using assms by (simp add: take_bit_nat_eq_self)
  then have m: "(word_of_nat m :: byte) = take_bit 4 (word_of_nat m)"
    by (metis of_nat_take_bit)
  have "push_bit 4 (word_of_nat n :: byte) OR take_bit 4 (word_of_nat m) 
        = push_bit 4 (word_of_nat n :: byte) + take_bit 4 (word_of_nat m)"
    by (rule disjunctive_add [symmetric]) (auto simp: bit_simps)
  then have "push_bit 4 (word_of_nat n :: byte) OR word_of_nat m = word_of_nat (n * 16 + m)"
    using m by (simp add: push_bit_eq_mult)
  moreover have "n * 16 + m < 2 ^ 8" using assms by simp
  ultimately show ?thesis
    by (simp only: unat_of_nat) simp
qed

lemma collect_runes_fold:
  "fold (\<lambda>r runes. if isSpace r then runes else runes @ [r]) s acc
     = acc @ filter (\<lambda>r. \<not> isSpace r) s"
  by (induction s arbitrary: acc) auto

lemma collect_runes_filter: "collect_runes s = filter (\<lambda>r. \<not> isSpace r) s"
  by (simp add: collect_runes_def collect_runes_fold)

section \<open>Facts about the loops\<close>

lemma digit_bounds:
  fixes v :: nat
  assumes "v < 65536"
  shows "v div 48 div 48 < 48" "v div 48 mod 48 < 48" "v mod 48 < 48"
  using assms by simp_all

lemma digit_sum: "(v::nat) div 48 div 48 * 48 * 48 + v div 48 mod 48 * 48 + v mod 48 = v"
proof -
  have "v div 48 div 48 * 48 * 48 + v div 48 mod 48 * 48
          = (v div 48 div 48 * 48 + v div 48 mod 48) * 48"
    by (simp only: distrib_right)
  also have "\<dots> = v div 48 * 48"
    by (simp only: div_mult_mod_eq)
  finally show ?thesis
    by (simp only: div_mult_mod_eq)
qed

lemma pair_lt: "unat (b0 :: byte) * 256 + unat (b1 :: byte) < 65536"
  using unat_byte_lt [of b0] unat_byte_lt [of b1] by simp

lemma unat_pair_lt:
  fixes b0 b1 :: byte
  shows "unat (push_bit 8 (ucast b0 :: uint) OR ucast b1) < 65536"
  unfolding unat_pair by (rule pair_lt)

lemma at_digits:
  fixes val :: uint
  assumes "unat val < 65536"
  shows "at ThaiAlphabet (val div 48 div 48) = Some (ThaiAlphabet ! (unat val div 48 div 48))"
    and "at ThaiAlphabet (val div 48 mod 48) = Some (ThaiAlphabet ! (unat val div 48 mod 48))"
    and "at ThaiAlphabet (val mod 48) = Some (ThaiAlphabet ! (unat val mod 48))"
  using digit_bounds [OF assms]
  by (simp_all add: at_def unat_div unat_mod length_ThaiAlphabet)

lemma Encode_pairs_step:
  assumes "i + 1 < length data"
  shows "Encode_pairs data i sb
           = Encode_pairs data (i + 2) (sb @ triple (data ! i) (data ! (i + 1)))"
proof -
  let ?val = "push_bit 8 (ucast (data ! i)) OR ucast (data ! (i + 1)) :: uint"
  note a = at_digits [of ?val, OF unat_pair_lt]
  have b: "word_of_nat Base = (48 :: uint)"
    by (simp add: Base_def)
  show ?thesis
    by (subst Encode_pairs.simps)
       (simp only: assms if_True Let_def b a option.case triple_def unat_pair)
qed

lemma enc_pairs_short: "length xs \<le> 1 \<Longrightarrow> enc_pairs xs = []"
  by (cases xs rule: enc_pairs.cases) simp_all

lemma Encode_pairs_closed:
  "i \<le> length data \<Longrightarrow>
     Encode_pairs data i sb
       = Some (i + 2 * ((length data - i) div 2), sb @ enc_pairs (drop i data))"
proof (induction "length data - i" arbitrary: i sb rule: less_induct)
  case less
  show ?case
  proof (cases "i + 1 < length data")
    case True
    then have dr: "drop i data = data ! i # data ! (i + 1) # drop (i + 2) data"
      by (simp add: Cons_nth_drop_Suc)
    have ar: "i + 2 + 2 * ((length data - (i + 2)) div 2) = i + 2 * ((length data - i) div 2)"
      using True by presburger
    have "Encode_pairs data i sb
            = Encode_pairs data (i + 2) (sb @ triple (data ! i) (data ! (i + 1)))"
      using True by (rule Encode_pairs_step)
    also have "\<dots> = Some (i + 2 + 2 * ((length data - (i + 2)) div 2),
                    (sb @ triple (data ! i) (data ! (i + 1))) @ enc_pairs (drop (i + 2) data))"
      using True by (intro less.hyps) simp_all
    finally show ?thesis
      unfolding ar dr by simp
  next
    case False
    with less.prems have "length (drop i data) \<le> 1" "(length data - i) div 2 = 0"
      by simp_all
    with False show ?thesis
      by (subst Encode_pairs.simps) (simp add: enc_pairs_short)
  qed
qed


lemma nth_BugineseAlphabet: "n < 16 \<Longrightarrow> BugineseAlphabet ! n = bugineseStart + word_of_nat n"
  by (simp add: BugineseAlphabet_eq)

lemma at_nibbles:
  fixes b :: byte
  shows "at BugineseAlphabet (drop_bit 4 b AND 0x0f) = Some (BugineseAlphabet ! (unat b div 16))"
    and "at BugineseAlphabet (b AND 0x0f) = Some (BugineseAlphabet ! (unat b mod 16))"
proof -
  have "unat b div 16 < 16" "unat b mod 16 < 16"
    using unat_byte_lt [of b] by simp_all
  then show "at BugineseAlphabet (drop_bit 4 b AND 0x0f) = Some (BugineseAlphabet ! (unat b div 16))"
    and "at BugineseAlphabet (b AND 0x0f) = Some (BugineseAlphabet ! (unat b mod 16))"
    by (simp only: at_def nib_hi length_BugineseAlphabet if_True,
        simp only: at_def nib_lo length_BugineseAlphabet if_True)
qed

lemma last_odd_nth:
  assumes "odd (length data)"
  shows "data ! (2 * (length data div 2)) = last data"
proof -
  from assms have "data \<noteq> []" by auto
  moreover from assms have "2 * (length data div 2) = length data - 1"
    by presburger
  ultimately show ?thesis
    by (simp add: last_conv_nth)
qed

lemma Encode_closed:
  "Encode data
     = Some (enc_pairs data @ (if odd (length data) then pad_runes (last data) else []))"
proof (cases "data = []")
  case True
  then show ?thesis
    by (simp add: Encode_def)
next
  case False
  have lp: "Encode_pairs data 0 [] = Some (2 * (length data div 2), enc_pairs data)"
    using Encode_pairs_closed [of 0 data "[]"] by simp
  show ?thesis
  proof (cases "odd (length data)")
    case True
    then have lt: "2 * (length data div 2) < length data"
      by presburger
    have ne: "(length data = 0) = False"
      using False by simp
    show ?thesis
      unfolding Encode_def
      by (simp only: ne if_False lp option.case prod.case lt if_True Let_def
            at_nibbles [of "last data"] last_odd_nth [OF True] pad_runes_def True, simp)
  next
    case False
    then have "\<not> 2 * (length data div 2) < length data"
      by presburger
    with False \<open>data \<noteq> []\<close> show ?thesis
      by (simp add: Encode_def lp)
  qed
qed


lemma set_triple: "set (triple b0 b1) \<subseteq> set ThaiAlphabet"
  using digit_bounds [OF pair_lt [of b0 b1]]
  by (simp add: triple_def Let_def length_ThaiAlphabet)

lemma length_triple: "length (triple b0 b1) = 3"
  by (simp add: triple_def Let_def)

lemma set_enc_pairs: "set (enc_pairs ds) \<subseteq> set ThaiAlphabet"
  using set_triple by (induction ds rule: enc_pairs.induct) auto

lemma length_enc_pairs: "length (enc_pairs ds) = 3 * (length ds div 2)"
  by (induction ds rule: enc_pairs.induct) (simp_all add: length_triple)

lemma set_pad_runes: "set (pad_runes b) \<subseteq> set BugineseAlphabet"
  using unat_byte_lt [of b] by (simp add: pad_runes_def length_BugineseAlphabet)

lemma alphabet_range:
  "list_all (\<lambda>r. 0x0E01 \<le> r \<and> r \<le> 0x1A0F) (ThaiAlphabet @ BugineseAlphabet)"
  by code_simp

lemma Encode_runes_valid:
  assumes "Encode data = Some t" and "r \<in> set t"
  shows "0x0E01 \<le> r \<and> r \<le> 0x1A0F"
proof -
  from assms have "r \<in> set ThaiAlphabet \<union> set BugineseAlphabet"
    using set_enc_pairs [of data] set_pad_runes [of "last data"]
    by (auto simp: Encode_closed split: if_splits)
  with alphabet_range show ?thesis
    by (auto simp: list_all_iff)
qed

lemma no_space_Thai: "list_all (\<lambda>r. \<not> isSpace r) ThaiAlphabet"
  by code_simp

lemma no_space_Buginese: "list_all (\<lambda>r. \<not> isSpace r) BugineseAlphabet"
  by code_simp

lemma filter_alphabet:
  assumes "set t \<subseteq> set ThaiAlphabet \<union> set BugineseAlphabet"
  shows "collect_runes t = t"
proof -
  have "\<forall>r \<in> set t. \<not> isSpace r"
    using assms no_space_Thai no_space_Buginese by (auto simp: list_all_iff)
  then show ?thesis
    by (simp add: collect_runes_filter)
qed

lemma Thai_not_Buginese: "r \<in> set ThaiAlphabet \<Longrightarrow> \<not> isBuginese r"
  using alphabets_disjoint by (auto simp: isBuginese_iff)

lemma Buginese_not_Thai: "isBuginese r \<Longrightarrow> thaiIndex r = None"
  using Thai_not_Buginese thaiIndex_None by blast

lemma paired_even: "even (length ds) \<Longrightarrow> paired ds = ds"
  by (induction ds rule: paired.induct) simp_all

lemma paired_odd: "odd (length ds) \<Longrightarrow> paired ds @ [last ds] = ds"
  by (induction ds rule: paired.induct) auto


lemma val_bytes:
  fixes val :: uint
  shows "ucast (drop_bit 8 val) = (word_of_nat (unat val div 256) :: byte)"
    and "ucast (val AND 0xFF) = (word_of_nat (unat val mod 256) :: byte)"
  by (simp_all only: word_unat_eq_iff unat_hi_byte unat_lo_byte unat_of_nat) simp_all

lemma Decode_triplets_stop: "\<not> i + 2 < length rs \<Longrightarrow> Decode_triplets rs i out = Inr out"
  by (subst Decode_triplets.simps) simp

lemma Decode_triplets_step:
  assumes "i + 2 < length rs"
    and "thaiIndex (rs ! i) = Some d0"
    and "thaiIndex (rs ! (i + 1)) = Some d1"
    and "thaiIndex (rs ! (i + 2)) = Some d2"
  shows "Decode_triplets rs i out =
           (if d0 * 48 * 48 + d1 * 48 + d2 > 65535
            then Inl (ValueOutOfRange (word_of_nat (d0 * 48 * 48 + d1 * 48 + d2)) i)
            else Decode_triplets rs (i + 3)
                   (out @ [word_of_nat ((d0 * 48 * 48 + d1 * 48 + d2) div 256),
                           word_of_nat ((d0 * 48 * 48 + d1 * 48 + d2) mod 256)]))"
proof -
  let ?v = "d0 * 48 * 48 + d1 * 48 + d2"
  let ?val = "word_of_nat d0 * word_of_nat Base * word_of_nat Base
                + word_of_nat d1 * word_of_nat Base + word_of_nat d2 :: uint"
  have d: "d0 < 48" "d1 < 48" "d2 < 48"
    using assms thaiIndex_Some by blast+
  have u: "unat ?val = ?v"
    using unat_digits [OF d] by (simp only: Base_def)
  have w: "?val = word_of_nat ?v"
    by (simp add: Base_def)
  have gt: "(?val > 0xFFFF) = (?v > 65535)"
    by (simp only: word_less_nat_alt u) simp
  have "Decode_triplets rs i out =
          (if ?val > 0xFFFF then Inl (ValueOutOfRange ?val i)
           else Decode_triplets rs (i + 3)
                  (out @ [ucast (drop_bit 8 ?val), ucast (?val AND 0xFF)]))"
    by (subst Decode_triplets.simps) (simp only: assms if_True option.case Let_def)
  also have "\<dots> = (if ?v > 65535 then Inl (ValueOutOfRange ?val i)
           else Decode_triplets rs (i + 3)
                  (out @ [word_of_nat (?v div 256), word_of_nat (?v mod 256)]))"
    by (simp only: gt val_bytes u)
  finally show ?thesis
    by (simp only: w)
qed

lemma nth_triple:
  "(pre @ triple b0 b1 @ rest) ! (length pre) = ThaiAlphabet ! ((unat b0 * 256 + unat b1) div 48 div 48)"
  "(pre @ triple b0 b1 @ rest) ! (length pre + 1) = ThaiAlphabet ! ((unat b0 * 256 + unat b1) div 48 mod 48)"
  "(pre @ triple b0 b1 @ rest) ! (length pre + 2) = ThaiAlphabet ! ((unat b0 * 256 + unat b1) mod 48)"
  by (simp_all add: triple_def Let_def nth_append)

lemma byte_of_pair:
  fixes b0 b1 :: byte
  shows "word_of_nat ((unat b0 * 256 + unat b1) div 256) = b0"
    and "word_of_nat ((unat b0 * 256 + unat b1) mod 256) = b1"
  using unat_byte_lt [of b1] by simp_all

lemma Decode_triplets_enc:
  "Decode_triplets (pre @ enc_pairs ds) (length pre) out = Inr (out @ paired ds)"
proof (induction ds arbitrary: pre out rule: enc_pairs.induct)
  case (1 b0 b1 rest)
  let ?v = "unat b0 * 256 + unat b1"
  let ?rs = "pre @ triple b0 b1 @ enc_pairs rest"
  note db = digit_bounds [OF pair_lt [of b0 b1]]
  have len: "length pre + 2 < length ?rs"
    by (simp add: length_triple)
  have "Decode_triplets ?rs (length pre) out
          = Decode_triplets ?rs (length pre + 3) (out @ [b0, b1])"
    using Decode_triplets_step [OF len, of "?v div 48 div 48" "?v div 48 mod 48" "?v mod 48" out]
          pair_lt [of b0 b1]
    by (simp only: nth_triple thaiIndex_nth db digit_sum byte_of_pair) simp
  also have "\<dots> = Inr ((out @ [b0, b1]) @ paired rest)"
    using "1.IH" [of "pre @ triple b0 b1" "out @ [b0, b1]"]
    by (simp add: length_triple)
  finally show ?case
    by simp
qed (simp_all add: Decode_triplets_stop)


lemma nibble_of_Buginese:
  assumes "n < 16"
  shows "(ucast (bugineseStart + word_of_nat n - bugineseStart :: rune) :: byte) = word_of_nat n"
proof -
  have "unat (ucast (word_of_nat n :: rune) :: byte) = unat (word_of_nat n :: byte)"
    using assms by (simp add: unsigned_ucast_eq unat_of_nat take_bit_eq_mod)
  then show ?thesis
    by (simp add: word_unat_eq_iff)
qed

lemma unat_nibble: "n < 16 \<Longrightarrow> unat (word_of_nat n :: byte) = n"
  by (simp add: unat_of_nat)

lemma nibble_le:
  assumes "isBuginese r"
  shows "(ucast (r - bugineseStart) :: byte) \<le> 0x0f"
proof -
  from isBuginese_offset [OF assms] obtain n where n: "n < 16" "r = bugineseStart + word_of_nat n"
    by blast
  then show ?thesis
    by (simp only: nibble_of_Buginese word_le_nat_alt unat_nibble) simp
qed

lemma Decode_padding_Buginese:
  assumes "isBuginese (bugRunes ! 0)" and "isBuginese (bugRunes ! 1)"
  shows "Decode_padding bugRunes out
           = Inr (out @ [push_bit 4 (ucast (bugRunes ! 0 - bugineseStart))
                           OR ucast (bugRunes ! 1 - bugineseStart)])"
  using nibble_le [OF assms(1)] nibble_le [OF assms(2)]
  by (simp add: Decode_padding_def Let_def not_less [symmetric])

lemma Decode_padding_pad: "Decode_padding (pad_runes b) out = Inr (out @ [b])"
proof -
  let ?h = "unat b div 16" and ?l = "unat b mod 16"
  have hl: "?h < 16" "?l < 16"
    using unat_byte_lt [of b] by simp_all
  have r: "pad_runes b ! 0 = bugineseStart + word_of_nat ?h"
          "pad_runes b ! 1 = bugineseStart + word_of_nat ?l"
    using hl by (simp_all add: pad_runes_def nth_BugineseAlphabet)
  have bug: "isBuginese (pad_runes b ! 0)" "isBuginese (pad_runes b ! 1)"
    using hl by (simp_all add: pad_runes_def isBuginese_iff length_BugineseAlphabet)
  have "unat (push_bit 4 (word_of_nat ?h :: byte) OR word_of_nat ?l) = unat b"
    by (simp only: nib_join [OF hl]) simp
  then have "push_bit 4 (word_of_nat ?h :: byte) OR word_of_nat ?l = b"
    by (simp only: word_unat_eq_iff)
  then show ?thesis
    by (simp only: Decode_padding_Buginese [OF bug] r nibble_of_Buginese [OF hl(1)]
          nibble_of_Buginese [OF hl(2)])
qed

lemma trailingBuginese_pad: "trailingBuginese (xs @ pad_runes b) = 2"
proof -
  have "isBuginese (BugineseAlphabet ! (unat b div 16))" "isBuginese (BugineseAlphabet ! (unat b mod 16))"
    using unat_byte_lt [of b] by (simp_all add: isBuginese_iff length_BugineseAlphabet)
  then show ?thesis
    by (simp add: trailingBuginese_def pad_runes_def nth_append)
qed

lemma trailingBuginese_Thai:
  assumes "xs \<noteq> []" and "last xs \<in> set ThaiAlphabet"
  shows "trailingBuginese xs = 0"
  using assms Thai_not_Buginese [of "last xs"]
  by (simp add: trailingBuginese_def last_conv_nth)

lemma Decode_triplets_errors:
  "Decode_triplets rs i out = Inl e \<Longrightarrow>
     (\<exists>r p. e = InvalidCharacter r p) \<or> (\<exists>v p. e = ValueOutOfRange v p)"
proof (induction "length rs - i" arbitrary: i out rule: less_induct)
  case less
  show ?case
  proof (cases "i + 2 < length rs")
    case False
    with less.prems show ?thesis
      by (simp add: Decode_triplets_stop)
  next
    case True
    show ?thesis
    proof (cases "\<exists>d0 d1 d2. thaiIndex (rs ! i) = Some d0 \<and> thaiIndex (rs ! (i + 1)) = Some d1
                     \<and> thaiIndex (rs ! (i + 2)) = Some d2")
      case True
      then obtain d0 d1 d2 where d: "thaiIndex (rs ! i) = Some d0"
          "thaiIndex (rs ! (i + 1)) = Some d1" "thaiIndex (rs ! (i + 2)) = Some d2"
        by blast
      let ?v = "d0 * 48 * 48 + d1 * 48 + d2"
      show ?thesis
      proof (cases "?v > 65535")
        case True
        with less.prems Decode_triplets_step [OF \<open>i + 2 < length rs\<close> d, of out]
        show ?thesis by (simp only: if_True) blast
      next
        case False
        with less.prems Decode_triplets_step [OF \<open>i + 2 < length rs\<close> d, of out]
        have "Decode_triplets rs (i + 3)
                (out @ [word_of_nat (?v div 256), word_of_nat (?v mod 256)]) = Inl e"
          by (simp only: if_False)
        moreover have "length rs - (i + 3) < length rs - i"
          using \<open>i + 2 < length rs\<close> by simp
        ultimately show ?thesis
          by (rule less.hyps [rotated])
      qed
    next
      case False
      with less.prems \<open>i + 2 < length rs\<close> show ?thesis
        by (subst (asm) Decode_triplets.simps) (auto split: option.splits)
    qed
  qed
qed

lemma Decode_padding_errors: "Decode_padding bugRunes out = Inl e \<Longrightarrow> e = InvalidPadding"
  by (auto simp: Decode_padding_def Let_def split: if_splits)

lemma bugRunes_of_nth:
  assumes "trailingBuginese runes = 2"
  shows "isBuginese (bugRunes_of runes ! 0)" and "isBuginese (bugRunes_of runes ! 1)"
    and "2 \<le> length runes"
    and "bugRunes_of runes ! 0 = runes ! (length runes - 2)"
    and "bugRunes_of runes ! 1 = runes ! (length runes - 1)"
proof -
  from assms have a: "2 \<le> length runes" "isBuginese (runes ! (length runes - 1))"
      "isBuginese (runes ! (length runes - 2))"
    by (simp_all add: trailingBuginese_def split: if_splits)
  then show "2 \<le> length runes" by simp
  from a(1) have "length runes - 2 + 1 = length runes - 1"
    by simp
  with a(1) show n: "bugRunes_of runes ! 0 = runes ! (length runes - 2)"
    "bugRunes_of runes ! 1 = runes ! (length runes - 1)"
    by (simp_all add: bugRunes_of_def assms)
  with a show "isBuginese (bugRunes_of runes ! 0)" "isBuginese (bugRunes_of runes ! 1)"
    by simp_all
qed

lemma ws_inserted_filter:
  "ws_inserted t t' \<Longrightarrow> filter (\<lambda>r. \<not> isSpace r) t' = filter (\<lambda>r. \<not> isSpace r) t"
proof (induction t t' rule: ws_inserted.induct)
  case (1 t')
  then show ?case
    by (simp add: list_all_iff)
next
  case (2 r t)
  then show ?case
    by simp
next
  case (3 r t r' t')
  then show ?case
    by auto
qed

lemma InvalidPadding_never: "Decode s \<noteq> Inl InvalidPadding"
proof
  assume a: "Decode s = Inl InvalidPadding"
  let ?runes = "collect_runes s"
  show False
  proof (cases "Decode_triplets (thaiRunes_of ?runes) 0 []")
    case (Inl e)
    with a have "e = InvalidPadding"
      by (simp add: Decode_def Let_def split: if_splits)
    with Decode_triplets_errors [OF Inl] show False
      by auto
  next
    case (Inr out)
    with a have tb: "trailingBuginese ?runes = 2"
      and dp: "Decode_padding (bugRunes_of ?runes) out = Inl InvalidPadding"
      by (simp_all add: Decode_def Let_def split: if_splits)
    from bugRunes_of_nth(1,2) [OF tb] dp show False
      by (simp add: Decode_padding_Buginese)
  qed
qed

lemma Decode_triplets_Inr_Thai:
  assumes "Decode_triplets rs i out = Inr res"
    and "(length rs - i) mod 3 = 0"
    and "i \<le> j" and "j < length rs"
  shows "thaiIndex (rs ! j) \<noteq> None"
  using assms
proof (induction "length rs - i" arbitrary: i out rule: less_induct)
  case less
  from less.prems(2,3,4) have lt: "i + 2 < length rs"
    by presburger
  from less.prems(1) lt obtain d0 d1 d2 where d: "thaiIndex (rs ! i) = Some d0"
      "thaiIndex (rs ! (i + 1)) = Some d1" "thaiIndex (rs ! (i + 2)) = Some d2"
    by (subst (asm) Decode_triplets.simps) (auto split: option.splits)
  show ?case
  proof (cases "j < i + 3")
    case True
    with less.prems(3) have "j = i \<or> j = i + 1 \<or> j = i + 2"
      by auto
    with d show ?thesis
      by auto
  next
    case False
    let ?v = "d0 * 48 * 48 + d1 * 48 + d2"
    from less.prems(1) Decode_triplets_step [OF lt d, of out]
    have a: "Decode_triplets rs (i + 3)
            (out @ [word_of_nat (?v div 256), word_of_nat (?v mod 256)]) = Inr res"
      by (simp split: if_splits)
    have b: "length rs - (i + 3) < length rs - i" and c: "(length rs - (i + 3)) mod 3 = 0"
      using lt less.prems(2) by presburger+
    have e: "i + 3 \<le> j"
      using False by simp
    show ?thesis
      by (rule less.hyps [OF b a c e less.prems(4)])
  qed
qed


lemma drop_last_two:
  assumes "2 \<le> length xs"
  shows "drop (length xs - 2) xs = [xs ! (length xs - 2), xs ! (length xs - 1)]"
proof -
  from assms have a: "length xs - 2 < length xs" and b: "length xs - 1 < length xs"
    and c: "Suc (length xs - 2) = length xs - 1" and d: "Suc (length xs - 1) = length xs"
    by simp_all
  show ?thesis
    using Cons_nth_drop_Suc [OF a] Cons_nth_drop_Suc [OF b]
    by (simp only: c d drop_all [OF order_refl])
qed

lemma Decode_groups:
  "Decode s =
     (let runes = collect_runes s in
      if runes = [] then Inr []
      else if length (thaiRunes_of runes) mod 3 \<noteq> 0
        then Inl (InvalidLength (length (thaiRunes_of runes)))
      else case Decode_triplets (thaiRunes_of runes) 0 [] of
             Inl e \<Rightarrow> Inl e
           | Inr out \<Rightarrow>
               (if bugRunes_of runes = [] then Inr out
                else Decode_padding (bugRunes_of runes) out))"
proof -
  have "(bugRunes_of runes = []) = (trailingBuginese runes \<noteq> 2)" if "runes \<noteq> []" for runes
    using that by (auto simp: bugRunes_of_def trailingBuginese_def)
  then show ?thesis
    by (auto simp: Decode_def Let_def split: sum.splits)
qed

lemma enc_pairs_nth_triple:
  "2 * k + 1 < length ds \<Longrightarrow>
     take 3 (drop (3 * k) (enc_pairs ds @ rest)) = triple (ds ! (2 * k)) (ds ! (2 * k + 1))"
proof (induction ds arbitrary: k rule: enc_pairs.induct)
  case (1 b0 b1 ds)
  show ?case
  proof (cases k)
    case 0
    then show ?thesis
      by (simp add: length_triple)
  next
    case (Suc j)
    with "1.prems" have "2 * j + 1 < length ds"
      by simp
    from "1.IH" [OF this] Suc show ?thesis
      by (simp add: length_triple)
  qed
qed simp_all






section \<open>The claims\<close>

text \<open>
  C1 (round trip). For every byte sequence \<open>b\<close>, of any length, \<open>Encode b\<close> returns a
  text without panicking and \<open>Decode\<close> of that text returns \<open>b\<close> with no error.
\<close>

theorem Decode_Encode: "\<exists>t. Encode b = Some t \<and> Decode t = Inr b"
proof -
  let ?t = "enc_pairs b @ (if odd (length b) then pad_runes (last b) else [])"
  have t: "Encode b = Some ?t"
    by (rule Encode_closed)
  have cr: "collect_runes ?t = ?t"
    using set_enc_pairs [of b] set_pad_runes [of "last b"]
    by (intro filter_alphabet) auto
  have tr: "Decode_triplets (enc_pairs b) 0 [] = Inr (paired b)"
    using Decode_triplets_enc [of "[]" b "[]"] by simp
  have m3: "length (enc_pairs b) mod 3 = 0"
    by (simp add: length_enc_pairs)
  have "Decode ?t = Inr b"
  proof (cases "odd (length b)")
    case True
    have tb: "trailingBuginese (enc_pairs b @ pad_runes (last b)) = 2"
      by (rule trailingBuginese_pad)
    have lp: "length (pad_runes (last b)) = 2"
      by (simp add: pad_runes_def)
    then have gr: "thaiRunes_of (enc_pairs b @ pad_runes (last b)) = enc_pairs b"
         "bugRunes_of (enc_pairs b @ pad_runes (last b)) = pad_runes (last b)"
      by (simp_all add: thaiRunes_of_def bugRunes_of_def tb)
    have pn: "pad_runes (last b) \<noteq> []"
      by (simp add: pad_runes_def)
    have "Decode (enc_pairs b @ pad_runes (last b)) = Inr (paired b @ [last b])"
      using cr True pn
      by (simp add: Decode_def Let_def gr tb m3 tr Decode_padding_pad lp)
    with True show ?thesis
      by (simp add: paired_odd)
  next
    case False
    show ?thesis
    proof (cases "b = []")
      case True
      then show ?thesis
        by (simp add: Decode_def collect_runes_def)
    next
      case ne: False
      with False have "2 \<le> length b"
        by (cases b rule: enc_pairs.cases) simp_all
      then have e: "enc_pairs b \<noteq> []"
        using length_enc_pairs [of b] by (cases "enc_pairs b") auto
      then have "last (enc_pairs b) \<in> set ThaiAlphabet"
        using set_enc_pairs [of b] last_in_set by blast
      with e have tb: "trailingBuginese (enc_pairs b) = 0"
        by (rule trailingBuginese_Thai)
      have gr: "thaiRunes_of (enc_pairs b) = enc_pairs b"
        by (simp add: thaiRunes_of_def tb)
      show ?thesis
        using cr False e
        by (simp add: Decode_def Let_def gr tb m3 tr paired_even)
    qed
  qed
  with t show ?thesis
    by blast
qed

text \<open>
  C2 (one pair of bytes). For the pair at positions \<open>2k\<close> and \<open>2k+1\<close> of the input,
  \<open>Encode\<close> forms \<open>v = b0 * 256 + b1\<close> and writes, at positions \<open>3k\<close>, \<open>3k+1\<close> and
  \<open>3k+2\<close> of the output, the Thai runes of the three base-48 digits of \<open>v\<close>, most
  significant first; each digit is below 48.
\<close>

theorem Encode_pair_digits:
  assumes "2 * k + 1 < length data"
  shows "\<exists>t d0 d1 d2. Encode data = Some t
           \<and> d0 < 48 \<and> d1 < 48 \<and> d2 < 48
           \<and> unat (data ! (2 * k)) * 256 + unat (data ! (2 * k + 1))
               = d0 * 48 * 48 + d1 * 48 + d2
           \<and> take 3 (drop (3 * k) t)
               = [ThaiAlphabet ! d0, ThaiAlphabet ! d1, ThaiAlphabet ! d2]"
proof -
  let ?v = "unat (data ! (2 * k)) * 256 + unat (data ! (2 * k + 1))"
  let ?t = "enc_pairs data @ (if odd (length data) then pad_runes (last data) else [])"
  note db = digit_bounds [OF pair_lt [of "data ! (2 * k)" "data ! (2 * k + 1)"]]
  have "take 3 (drop (3 * k) ?t)
          = [ThaiAlphabet ! (?v div 48 div 48), ThaiAlphabet ! (?v div 48 mod 48),
             ThaiAlphabet ! (?v mod 48)]"
    using enc_pairs_nth_triple [OF assms] by (simp only: triple_def Let_def)
  moreover have "?v = ?v div 48 div 48 * 48 * 48 + ?v div 48 mod 48 * 48 + ?v mod 48"
    by (simp only: digit_sum)
  ultimately show ?thesis
    using db Encode_closed [of data] by blast
qed

theorem Encode_pair_digits_witness:
  "2 * 1 + 1 < length [0x00, 0x01, 0xFF, 0xFF :: byte]
   \<and> (\<exists>t d0 d1 d2. Encode [0x00, 0x01, 0xFF, 0xFF] = Some t
          \<and> d0 < 48 \<and> d1 < 48 \<and> d2 < 48
          \<and> unat (0xFF :: byte) * 256 + unat (0xFF :: byte) = d0 * 48 * 48 + d1 * 48 + d2
          \<and> take 3 (drop (3 * 1) t) = [ThaiAlphabet ! d0, ThaiAlphabet ! d1, ThaiAlphabet ! d2])"
  using Encode_pair_digits [of 1 "[0x00, 0x01, 0xFF, 0xFF]"] by simp

text \<open>
  C3 (shape of the output). \<open>Encode\<close> never panics. For an even number \<open>n\<close> of bytes
  it returns \<open>(n/2)*3\<close> runes, all Thai. For an odd \<open>n\<close> it returns \<open>((n-1)/2)*3 + 2\<close>
  runes: the last two are the Buginese runes of the high nibble \<open>b >> 4\<close> and of the
  low nibble \<open>b & 0xF\<close> of the last byte \<open>b\<close>, in that order, and all before them are
  Thai.
\<close>

theorem Encode_shape:
  "\<exists>t. Encode data = Some t \<and>
     (if even (length data)
      then length t = (length data div 2) * 3 \<and> list_all isThai t
      else length t = ((length data - 1) div 2) * 3 + 2
           \<and> list_all isThai (take (length t - 2) t)
           \<and> drop (length t - 2) t
               = [BugineseAlphabet ! unat (drop_bit 4 (last data)),
                  BugineseAlphabet ! unat (last data AND 0x0F)]
           \<and> list_all isBuginese (drop (length t - 2) t))"
proof (cases "even (length data)")
  case True
  have "list_all isThai (enc_pairs data)"
    using set_enc_pairs [of data] by (auto simp: list_all_iff isThai_iff)
  with True show ?thesis
    by (simp add: Encode_closed length_enc_pairs)
next
  case False
  let ?b = "last data"
  let ?t = "enc_pairs data @ pad_runes ?b"
  have t: "Encode data = Some ?t"
    using False by (simp add: Encode_closed)
  have lp: "length (pad_runes ?b) = 2"
    by (simp add: pad_runes_def)
  have len: "length ?t = ((length data - 1) div 2) * 3 + 2"
  proof -
    from False have "(length data - 1) div 2 = length data div 2"
      by presburger
    then show ?thesis
      by (simp add: length_enc_pairs lp)
  qed
  have tk: "take (length ?t - 2) ?t = enc_pairs data" and dr: "drop (length ?t - 2) ?t = pad_runes ?b"
    by (simp_all add: lp)
  have th: "list_all isThai (enc_pairs data)"
    using set_enc_pairs [of data] by (auto simp: list_all_iff isThai_iff)
  have bg: "list_all isBuginese (pad_runes ?b)"
    using set_pad_runes [of ?b] by (auto simp: list_all_iff isBuginese_iff)
  have "unat (drop_bit 4 ?b) = unat ?b div 16"
    by (simp add: unat_drop_bit_eq drop_bit_eq_div unat_div)
  then have pr: "pad_runes ?b = [BugineseAlphabet ! unat (drop_bit 4 ?b),
                                BugineseAlphabet ! unat (?b AND 0x0F)]"
    by (simp only: pad_runes_def nib_lo)
  show ?thesis
  proof (intro exI [of _ ?t] conjI)
    show "Encode data = Some ?t"
      by (rule t)
    show "if even (length data)
      then length ?t = (length data div 2) * 3 \<and> list_all isThai ?t
      else length ?t = ((length data - 1) div 2) * 3 + 2
           \<and> list_all isThai (take (length ?t - 2) ?t)
           \<and> drop (length ?t - 2) ?t
               = [BugineseAlphabet ! unat (drop_bit 4 ?b), BugineseAlphabet ! unat (?b AND 0x0F)]
           \<and> list_all isBuginese (drop (length ?t - 2) ?t)"
      unfolding if_not_P [OF False] tk dr by (intro conjI len th pr bg)
  qed
qed

text \<open>
  C4 (whitespace tolerance). If \<open>t'\<close> is \<open>t\<close> with whitespace runes inserted at any
  positions, \<open>Decode t'\<close> equals \<open>Decode t\<close>: the same bytes, or the same error with
  the same count or position.
\<close>

theorem Decode_ignores_whitespace:
  assumes "ws_inserted t t'"
  shows "Decode t' = Decode t"
  using ws_inserted_filter [OF assms]
  by (simp add: Decode_def collect_runes_filter)

theorem Decode_ignores_whitespace_witness:
  "ws_inserted [3609, 3620, 3614, 3606, 3595, 3600]
     [0x0A, 3609, 0x20, 3620, 0x20, 3614, 0x20, 3606, 0x20, 3595, 0x20, 3600, 0x0A]
   \<and> Decode [0x0A, 3609, 0x20, 3620, 0x20, 3614, 0x20, 3606, 0x20, 3595, 0x20, 3600, 0x0A]
       = Decode [3609, 3620, 3614, 3606, 3595, 3600]
   \<and> Decode [3609, 3620, 3614, 3606, 3595, 3600] = Inr [0xDE, 0xAD, 0xBE, 0xEF]
   \<and> ws_inserted [0x41, 0x42] [0x41, 0x09, 0x0D, 0x42]
   \<and> Decode [0x41, 0x09, 0x0D, 0x42] = Decode [0x41, 0x42]
   \<and> Decode [0x41, 0x42] = Inl (InvalidLength 2)"
proof -
  have h1: "ws_inserted [3609, 3620, 3614, 3606, 3595, 3600]
     [0x0A, 3609, 0x20, 3620, 0x20, 3614, 0x20, 3606, 0x20, 3595, 0x20, 3600, 0x0A]"
    by (simp add: isSpace_def)
  have h2: "ws_inserted [0x41, 0x42] [0x41, 0x09, 0x0D, 0x42]"
    by (simp add: isSpace_def)
  have d1: "Decode [3609, 3620, 3614, 3606, 3595, 3600] = Inr [0xDE, 0xAD, 0xBE, 0xEF]"
    by code_simp
  have d2: "Decode [0x41, 0x42] = Inl (InvalidLength 2)"
    by code_simp
  from h1 h2 d1 d2 Decode_ignores_whitespace [OF h1] Decode_ignores_whitespace [OF h2]
  show ?thesis
    by (simp only: simp_thms)
qed

text \<open>
  C5 (the padding pair). With \<open>runes\<close> the working sequence after whitespace
  filtering: when it has at least two runes and the last two are Buginese, those two are
  the padding pair and the rest is the primary group; otherwise the whole sequence is the
  primary group and there is no pair. \<open>Decode\<close> sends the primary group to the triplet
  loop and the pair, if any, to the padding step. A last rune that is Buginese and is not
  preceded by a Buginese rune stays in the primary group, and \<open>Decode\<close> fails.
\<close>

theorem padding_pair_detection:
  "let runes = collect_runes s; n = length runes in
     (2 \<le> n \<and> isBuginese (runes ! (n - 1)) \<and> isBuginese (runes ! (n - 2))
        \<longrightarrow> thaiRunes_of runes = take (n - 2) runes
            \<and> bugRunes_of runes = [runes ! (n - 2), runes ! (n - 1)])
   \<and> (\<not> (2 \<le> n \<and> isBuginese (runes ! (n - 1)) \<and> isBuginese (runes ! (n - 2)))
        \<longrightarrow> thaiRunes_of runes = runes \<and> bugRunes_of runes = [])
   \<and> Decode s =
        (if runes = [] then Inr []
         else if length (thaiRunes_of runes) mod 3 \<noteq> 0
           then Inl (InvalidLength (length (thaiRunes_of runes)))
         else case Decode_triplets (thaiRunes_of runes) 0 [] of
                Inl e \<Rightarrow> Inl e
              | Inr out \<Rightarrow>
                  (if bugRunes_of runes = [] then Inr out
                   else Decode_padding (bugRunes_of runes) out))
   \<and> (runes \<noteq> [] \<and> isBuginese (last runes) \<and> \<not> (2 \<le> n \<and> isBuginese (runes ! (n - 2)))
        \<longrightarrow> last runes \<in> set (thaiRunes_of runes) \<and> (\<exists>e. Decode s = Inl e))"
proof -
  define runes where "runes = collect_runes s"
  define n where "n = length runes"
  have pair: "thaiRunes_of runes = take (n - 2) runes
                \<and> bugRunes_of runes = [runes ! (n - 2), runes ! (n - 1)]"
    if "2 \<le> n \<and> isBuginese (runes ! (n - 1)) \<and> isBuginese (runes ! (n - 2))"
  proof -
    from that have "trailingBuginese runes = 2"
      by (simp add: trailingBuginese_def n_def)
    with that drop_last_two [of runes] show ?thesis
      by (simp add: thaiRunes_of_def bugRunes_of_def n_def)
  qed
  have nopair: "thaiRunes_of runes = runes \<and> bugRunes_of runes = []"
    if "\<not> (2 \<le> n \<and> isBuginese (runes ! (n - 1)) \<and> isBuginese (runes ! (n - 2)))"
  proof -
    from that have "trailingBuginese runes = 0"
      by (auto simp: trailingBuginese_def n_def)
    then show ?thesis
      by (simp add: thaiRunes_of_def bugRunes_of_def)
  qed
  have dec: "Decode s =
        (if runes = [] then Inr []
         else if length (thaiRunes_of runes) mod 3 \<noteq> 0
           then Inl (InvalidLength (length (thaiRunes_of runes)))
         else case Decode_triplets (thaiRunes_of runes) 0 [] of
                Inl e \<Rightarrow> Inl e
              | Inr out \<Rightarrow>
                  (if bugRunes_of runes = [] then Inr out
                   else Decode_padding (bugRunes_of runes) out))"
    using Decode_groups [of s] by (simp only: Let_def runes_def)
  have single: "last runes \<in> set (thaiRunes_of runes) \<and> (\<exists>e. Decode s = Inl e)"
    if "runes \<noteq> [] \<and> isBuginese (last runes) \<and> \<not> (2 \<le> n \<and> isBuginese (runes ! (n - 2)))"
  proof -
    from that have ne: "runes \<noteq> []" and bug: "isBuginese (last runes)"
      by simp_all
    from that nopair have th: "thaiRunes_of runes = runes" and bg: "bugRunes_of runes = []"
      by blast+
    have "\<exists>e. Decode s = Inl e"
    proof (cases "length runes mod 3 = 0")
      case False
      with ne show ?thesis
        by (simp add: dec th)
    next
      case True
      show ?thesis
      proof (cases "Decode_triplets runes 0 []")
        case (Inl e)
        with ne True show ?thesis
          by (simp add: dec th)
      next
        case (Inr out)
        from ne have "length runes - 1 < length runes"
          by simp
        with Decode_triplets_Inr_Thai [OF Inr, of "length runes - 1"] True
        have "thaiIndex (runes ! (length runes - 1)) \<noteq> None"
          by simp
        with Buginese_not_Thai [OF bug] ne show ?thesis
          by (simp add: last_conv_nth)
      qed
    qed
    with ne th show ?thesis
      by simp
  qed
  show ?thesis
    unfolding Let_def runes_def [symmetric] n_def [symmetric]
    using pair nopair dec single by blast
qed

theorem padding_pair_detection_witness:
  "thaiRunes_of (collect_runes [3585, 0x20, 3585, 3586, 0x1A0A, 0x1A0B]) = [3585, 3585, 3586]
   \<and> bugRunes_of (collect_runes [3585, 0x20, 3585, 3586, 0x1A0A, 0x1A0B]) = [0x1A0A, 0x1A0B]
   \<and> thaiRunes_of (collect_runes [3585, 3585, 0x1A0B]) = [3585, 3585, 0x1A0B]
   \<and> bugRunes_of (collect_runes [3585, 3585, 0x1A0B]) = []
   \<and> isBuginese (last (collect_runes [3585, 3585, 0x1A0B]))
   \<and> (\<exists>e. Decode [3585, 3585, 0x1A0B] = Inl e)"
proof -
  have c1: "collect_runes [3585, 0x20, 3585, 3586, 0x1A0A, 0x1A0B] = [3585, 3585, 3586, 0x1A0A, 0x1A0B]"
    and c2: "collect_runes [3585, 3585, 0x1A0B] = [3585, 3585, 0x1A0B]"
    by (simp_all add: collect_runes_filter isSpace_def)
  have b: "isBuginese 0x1A0A" "isBuginese 0x1A0B" "\<not> isBuginese 3585"
    by (simp_all add: isBuginese_def bugineseStart_def bugineseEnd_def)
  note pair = padding_pair_detection [of "[3585, 0x20, 3585, 3586, 0x1A0A, 0x1A0B]",
      unfolded Let_def, THEN conjunct1]
  note nopair = padding_pair_detection [of "[3585, 3585, 0x1A0B]",
      unfolded Let_def, THEN conjunct2, THEN conjunct1]
  note single = padding_pair_detection [of "[3585, 3585, 0x1A0B]",
      unfolded Let_def, THEN conjunct2, THEN conjunct2, THEN conjunct2]
  from pair nopair single show ?thesis
    by (simp add: c1 c2 b)
qed

text \<open>
  C6 (invalid length). \<open>Decode\<close> returns the error \<open>InvalidLength n\<close> exactly when the
  number of runes in the primary group (whitespace dropped, padding pair removed) is
  not a multiple of 3, and \<open>n\<close> is that number. The result is the error alone:
  the sum type has no bytes on its error side, as the source returns \<open>nil\<close> there.
\<close>

theorem InvalidLength_iff:
  "(Decode s = Inl (InvalidLength n)) =
     (length (thaiRunes_of (collect_runes s)) mod 3 \<noteq> 0
      \<and> n = length (thaiRunes_of (collect_runes s)))"
proof (cases "length (thaiRunes_of (collect_runes s)) mod 3 = 0")
  case False
  then have "collect_runes s \<noteq> []"
    by (auto simp: thaiRunes_of_def)
  with False show ?thesis
    by (auto simp: Decode_def Let_def)
next
  case True
  have "Decode s \<noteq> Inl (InvalidLength n)"
  proof
    assume a: "Decode s = Inl (InvalidLength n)"
    show False
    proof (cases "Decode_triplets (thaiRunes_of (collect_runes s)) 0 []")
      case (Inl e)
      with a True have "e = InvalidLength n"
        by (simp add: Decode_def Let_def split: if_splits)
      with Decode_triplets_errors [OF Inl] show False
        by auto
    next
      case (Inr out)
      with a True have "Decode_padding (bugRunes_of (collect_runes s)) out = Inl (InvalidLength n)"
        by (simp add: Decode_def Let_def split: if_splits)
      from Decode_padding_errors [OF this] show False
        by simp
    qed
  qed
  with True show ?thesis
    by simp
qed



text \<open>
  C8 (the alphabets). \<open>init\<close> leaves 48 pairwise distinct runes in \<open>ThaiAlphabet\<close>:
  the 47 consecutive code points from \<open>thaiStart\<close> (the loop stops with its counter at
  47), then \<open>thaiBaht\<close>, which is not one of the 47. \<open>BugineseAlphabet\<close> holds the 16 consecutive code points from
  \<open>bugineseStart\<close>. No rune is in both, and \<open>isThai\<close> and \<open>isBuginese\<close> are
  membership in the two arrays.
\<close>

theorem alphabets_distinct_disjoint:
  "fst (init_thai_loop thaiStart 0 (replicate Base 0)) = 47
   \<and> length ThaiAlphabet = 48 \<and> distinct ThaiAlphabet
   \<and> take 47 ThaiAlphabet = map (\<lambda>n. thaiStart + word_of_nat n) [0..<47]
   \<and> drop 47 ThaiAlphabet = [thaiBaht]
   \<and> thaiBaht \<notin> set (take 47 ThaiAlphabet)
   \<and> length BugineseAlphabet = 16
   \<and> BugineseAlphabet = map (\<lambda>n. bugineseStart + word_of_nat n) [0..<16]
   \<and> set ThaiAlphabet \<inter> set BugineseAlphabet = {}
   \<and> (\<forall>r. isThai r = (r \<in> set ThaiAlphabet))
   \<and> (\<forall>r. isBuginese r = (r \<in> set BugineseAlphabet))"
proof -
  have "thaiBaht \<notin> set (take 47 ThaiAlphabet)"
    by code_simp
  moreover have "set ThaiAlphabet \<inter> set BugineseAlphabet = {}"
    using alphabets_disjoint by blast
  ultimately show ?thesis
    using isThai_iff isBuginese_iff distinct_ThaiAlphabet init_thai_loop_idx
    by (simp add: length_ThaiAlphabet length_BugineseAlphabet BugineseAlphabet_eq [symmetric])
       (simp add: ThaiAlphabet_eq)
qed

text \<open>
  C9 (invalid padding is unreachable). \<open>Decode\<close> never returns \<open>InvalidPadding\<close>.
  When a padding pair is selected, both runes are Buginese, both nibbles are at most 15,
  the re-validation in \<open>Decode_padding\<close> succeeds, and the last byte of a successful
  result is \<open>(hi << 4) | lo\<close>.
\<close>

theorem InvalidPadding_unreachable:
  "Decode s \<noteq> Inl InvalidPadding
   \<and> (trailingBuginese (collect_runes s) = 2 \<longrightarrow>
        (let bugRunes = bugRunes_of (collect_runes s);
             hi = ucast (bugRunes ! 0 - bugineseStart) :: byte;
             lo = ucast (bugRunes ! 1 - bugineseStart) :: byte
         in isBuginese (bugRunes ! 0) \<and> isBuginese (bugRunes ! 1)
            \<and> hi \<le> 0x0f \<and> lo \<le> 0x0f
            \<and> (\<forall>out. Decode_padding bugRunes out = Inr (out @ [push_bit 4 hi OR lo]))
            \<and> (\<forall>bytes. Decode s = Inr bytes \<longrightarrow>
                  bytes \<noteq> [] \<and> last bytes = push_bit 4 hi OR lo)))"
proof (intro conjI impI)
  show "Decode s \<noteq> Inl InvalidPadding"
    by (rule InvalidPadding_never)
next
  let ?runes = "collect_runes s"
  let ?bug = "bugRunes_of ?runes"
  let ?hi = "ucast (?bug ! 0 - bugineseStart) :: byte"
  let ?lo = "ucast (?bug ! 1 - bugineseStart) :: byte"
  assume tb: "trailingBuginese ?runes = 2"
  note b = bugRunes_of_nth(1,2) [OF tb]
  have pad: "Decode_padding ?bug out = Inr (out @ [push_bit 4 ?hi OR ?lo])" for out
    by (rule Decode_padding_Buginese [OF b])
  have fin: "bytes \<noteq> [] \<and> last bytes = push_bit 4 ?hi OR ?lo" if "Decode s = Inr bytes" for bytes
  proof -
    from bugRunes_of_nth(3) [OF tb] have ne: "(length ?runes = 0) = False"
      by auto
    show ?thesis
    proof (cases "Decode_triplets (thaiRunes_of ?runes) 0 []")
      case (Inl e)
      with that ne show ?thesis
        by (simp add: Decode_def Let_def split: if_splits)
    next
      case (Inr out)
      with that ne tb have "Decode_padding ?bug out = Inr bytes"
        by (simp add: Decode_def Let_def split: if_splits)
      with pad [of out] show ?thesis
        by simp
    qed
  qed
  show "let bugRunes = ?bug;
            hi = ucast (bugRunes ! 0 - bugineseStart) :: byte;
            lo = ucast (bugRunes ! 1 - bugineseStart) :: byte
        in isBuginese (bugRunes ! 0) \<and> isBuginese (bugRunes ! 1)
           \<and> hi \<le> 0x0f \<and> lo \<le> 0x0f
           \<and> (\<forall>out. Decode_padding bugRunes out = Inr (out @ [push_bit 4 hi OR lo]))
           \<and> (\<forall>bytes. Decode s = Inr bytes \<longrightarrow>
                 bytes \<noteq> [] \<and> last bytes = push_bit 4 hi OR lo)"
    unfolding Let_def using b nibble_le [OF b(1)] nibble_le [OF b(2)] pad fin by blast
qed

theorem InvalidPadding_unreachable_witness:
  "trailingBuginese (collect_runes [0x1A0A, 0x1A0B]) = 2
   \<and> Decode [0x1A0A, 0x1A0B] = Inr [0xAB]
   \<and> Decode [0x1A0A, 0x1A0B] \<noteq> Inl InvalidPadding
   \<and> push_bit 4 (ucast (bugRunes_of (collect_runes [0x1A0A, 0x1A0B]) ! 0 - bugineseStart) :: byte)
         OR ucast (bugRunes_of (collect_runes [0x1A0A, 0x1A0B]) ! 1 - bugineseStart) = 0xAB"
proof -
  have h: "trailingBuginese (collect_runes [0x1A0A, 0x1A0B]) = 2"
    by code_simp
  have d: "Decode [0x1A0A, 0x1A0B] = Inr [0xAB]"
    by code_simp
  from InvalidPadding_unreachable [of "[0x1A0A, 0x1A0B]"] h d show ?thesis
    by (auto simp: Let_def)
qed

text \<open>
  C10 (whitespace only). A text made only of spaces, tabs, newlines and carriage
  returns, the empty text included, decodes to the empty byte sequence with no error.
\<close>

theorem Decode_only_whitespace:
  assumes "set s \<subseteq> {0x20, 0x09, 0x0A, 0x0D}"
  shows "Decode s = Inr []"
proof -
  from assms have "\<forall>r \<in> set s. isSpace r"
    by (auto simp: isSpace_def)
  then have "collect_runes s = []"
    by (simp add: collect_runes_filter)
  then show ?thesis
    by (simp add: Decode_def)
qed

theorem Decode_only_whitespace_witness:
  "set [0x20, 0x09, 0x0A, 0x0D, 0x20] \<subseteq> {0x20, 0x09, 0x0A, 0x0D :: rune}
   \<and> Decode [0x20, 0x09, 0x0A, 0x0D, 0x20] = Inr [] \<and> Decode [] = Inr []"
  using Decode_only_whitespace [of "[0x20, 0x09, 0x0A, 0x0D, 0x20]"] Decode_only_whitespace [of "[]"]
  by simp

end
